theory Spec2Isabelle
  imports Main "HOL-Library.Sublist" "HOL-Library.Multiset"
begin

section \<open>Values and objects\<close>

text \<open>
  The builder \<^verbatim>\<open>mappingFromFieldMap\<close> of
  \<^verbatim>\<open>x-pack/plugins/rule_registry/server/event_log/log/utils/mapping_from_field_map.ts\<close>
  works on plain JavaScript objects. A value is a string, a number, a boolean, null or an
  object; an object is a finite map from property names to values. Two objects are
  structurally equal exactly when they are equal as maps, whatever the order in which
  their properties were inserted. Numbers are only ever copied, never computed with.
\<close>

datatype jv = JStr string | JNum int | JBool bool | JNull | JObj "string \<Rightarrow> jv option"

type_synonym obj = "string \<Rightarrow> jv option"

text \<open>The only exception the builder can raise: calling \<^verbatim>\<open>.split\<close> on a non-string.\<close>

datatype error = TypeError

text \<open>The parameter \<^verbatim>\<open>dynamic: 'strict' | boolean\<close>.\<close>

datatype dynamic_mode = Strict | Dynamic bool

text \<open>The object literal \<^verbatim>\<open>{ dynamic, properties: {} }\<close> that the builder returns.\<close>

record index_mappings =
  dynamic :: dynamic_mode
  properties :: obj

section \<open>String operations\<close>

text \<open>
  \<^verbatim>\<open>String.prototype.split(sep)\<close> for a one-character separator: the pieces between the
  separators, empty pieces included; the empty string gives one empty piece.
\<close>

fun split :: "char \<Rightarrow> string \<Rightarrow> string list" where
  "split sep [] = [[]]"
| "split sep (c # cs) =
     (if c = sep then [] # split sep cs
      else (case split sep cs of s # ss \<Rightarrow> (c # s) # ss | [] \<Rightarrow> [[c]]))"

text \<open>\<^verbatim>\<open>Array.prototype.join(sep)\<close> on an array of strings.\<close>

fun join :: "string \<Rightarrow> string list \<Rightarrow> string" where
  "join sep [] = []"
| "join sep [s] = s"
| "join sep (s # t # ts) = s @ sep @ join sep (t # ts)"

section \<open>Assignment along a path\<close>

text \<open>
  Modelled from the spec: \<^verbatim>\<open>set\<close> of \<^verbatim>\<open>@elastic/safer-lodash-set\<close> is imported by the
  builder but its code is not among the sources. The spec describes what the builder
  relies on: the dotted path is split into segments, an intermediate node is constructed
  (or reused when the segment already holds an object) for every segment except the last,
  and the value is placed at the final segment. \<open>set_keys\<close> walks the segments that way:
  a segment that is absent or holds a non-object gets a fresh empty object, the last
  segment is overwritten. \<open>set_path\<close> is the call \<^verbatim>\<open>set(object, path, value)\<close> on a path
  string. Bracket syntax, array creation for numeric segments and the protection of
  \<^verbatim>\<open>__proto__\<close>-like keys, which the spec does not mention, are not modelled.
\<close>

fun set_keys :: "obj \<Rightarrow> string list \<Rightarrow> jv \<Rightarrow> obj" where
  "set_keys nested [] v = nested"
| "set_keys nested [key] v = nested(key \<mapsto> v)"
| "set_keys nested (key # ks) v =
     nested(key \<mapsto> JObj (set_keys
       (case nested key of Some (JObj objValue) \<Rightarrow> objValue | _ \<Rightarrow> Map.empty) ks v))"

definition set_path :: "obj \<Rightarrow> string \<Rightarrow> jv \<Rightarrow> obj" where
  "set_path object path v = set_keys object (split (CHR ''.'') path) v"

section \<open>The builder\<close>

text \<open>
  A field map is a JavaScript object from field keys to declarations; it is given as the
  list of its entries in the order of \<^verbatim>\<open>Object.keys\<close>, each declaration an object.

  \<^verbatim>\<open>Object.keys(fieldMap).map((key) => ({ name: key, ...fieldMap[key] }))\<close>: the spread
  comes after \<^verbatim>\<open>name: key\<close>, so a declaration's own \<^verbatim>\<open>name\<close> property wins.
\<close>

definition with_name :: "string \<Rightarrow> obj \<Rightarrow> obj" where
  "with_name key field = [''name'' \<mapsto> JStr key] ++ field"

definition fields_of :: "(string \<times> obj) list \<Rightarrow> obj list" where
  "fields_of fieldMap = map (\<lambda>(key, field). with_name key field) fieldMap"

text \<open>
  \<^verbatim>\<open>const { name, required, array, ...rest } = field\<close>: the remaining own properties.
\<close>

definition rest_of :: "obj \<Rightarrow> obj" where
  "rest_of field = field |` (- {''name'', ''required'', ''array''})"

text \<open>
  The body of the \<^verbatim>\<open>forEach\<close> callback:
  \<^verbatim>\<open>set(mappings.properties, field.name.split('.').join('.properties.'), rest)\<close>.
  \<^verbatim>\<open>field.name.split\<close> raises a TypeError unless \<^verbatim>\<open>field.name\<close> is a string.
\<close>

definition place_field :: "obj \<Rightarrow> obj \<Rightarrow> error + obj" where
  "place_field props field =
     (case field ''name'' of
        Some (JStr name) \<Rightarrow>
          Inr (set_path props (join ''.properties.'' (split (CHR ''.'') name))
                 (JObj (rest_of field)))
      | _ \<Rightarrow> Inl TypeError)"

text \<open>\<^verbatim>\<open>fields.forEach(...)\<close>: the fields in order; an exception ends the loop.\<close>

fun forEach :: "obj list \<Rightarrow> obj \<Rightarrow> error + obj" where
  "forEach [] props = Inr props"
| "forEach (field # fs) props =
     (case place_field props field of
        Inl e \<Rightarrow> Inl e
      | Inr props' \<Rightarrow> forEach fs props')"

definition mappingFromFieldMap :: "(string \<times> obj) list \<Rightarrow> dynamic_mode \<Rightarrow> error + index_mappings" where
  "mappingFromFieldMap fieldMap dyn =
     (case forEach (fields_of fieldMap) Map.empty of
        Inl e \<Rightarrow> Inl e
      | Inr props \<Rightarrow> Inr \<lparr>dynamic = dyn, properties = props\<rparr>)"

section \<open>Reading the result\<close>

text \<open>
  Property access along a list of keys, as in \<^verbatim>\<open>o.a.properties.b\<close>: \<open>None\<close> where a key
  is absent or the path runs into a value that is not an object.
\<close>

fun get_keys :: "jv \<Rightarrow> string list \<Rightarrow> jv option" where
  "get_keys v [] = Some v"
| "get_keys (JObj m) (key # ks) = (case m key of None \<Rightarrow> None | Some c \<Rightarrow> get_keys c ks)"
| "get_keys _ (key # ks) = None"

text \<open>
  The keys \<open>s1, properties, s2, ..., properties, sn\<close> below the root's \<^verbatim>\<open>properties\<close> at
  which a field with segments \<open>s1 ... sn\<close> is expected.
\<close>

fun property_path :: "string list \<Rightarrow> string list" where
  "property_path [] = []"
| "property_path [s] = [s]"
| "property_path (s # t # ts) = s # ''properties'' # property_path (t # ts)"

text \<open>The effective dotted name of a field: its \<^verbatim>\<open>name\<close> property after the merge, if a string.\<close>

definition name_of :: "obj \<Rightarrow> string option" where
  "name_of field = (case field ''name'' of Some (JStr name) \<Rightarrow> Some name | _ \<Rightarrow> None)"

text \<open>The segments of a field's name.\<close>

definition segments_of :: "obj \<Rightarrow> string list option" where
  "segments_of field = map_option (split (CHR ''.'')) (name_of field)"

section \<open>Well-formed input\<close>

text \<open>
  A dotted name is well-formed when it is non-empty and none of its segments is empty.
  A field map is well-formed when its keys are unique and every field's effective name
  is a well-formed string.
\<close>

definition well_formed_name :: "string \<Rightarrow> bool" where
  "well_formed_name name = (name \<noteq> [] \<and> [] \<notin> set (split (CHR ''.'') name))"

definition well_formed_field :: "obj \<Rightarrow> bool" where
  "well_formed_field field =
     (case name_of field of Some name \<Rightarrow> well_formed_name name | None \<Rightarrow> False)"

definition well_formed :: "(string \<times> obj) list \<Rightarrow> bool" where
  "well_formed fieldMap =
     (distinct (map fst fieldMap) \<and> list_all well_formed_field (fields_of fieldMap))"

text \<open>
  \<open>overwrites field segs\<close>: the segments of the field's name are a prefix of \<open>segs\<close> (or
  equal to it), so that placing the field replaces what sits at or above \<open>segs\<close>.
  \<open>extends field segs\<close>: the field's name continues \<open>segs\<close>, so that placing the field
  writes below what sits at \<open>segs\<close>.
\<close>

definition overwrites :: "obj \<Rightarrow> string list \<Rightarrow> bool" where
  "overwrites field segs =
     (case segments_of field of Some q \<Rightarrow> prefix q segs | None \<Rightarrow> False)"

definition extends :: "obj \<Rightarrow> string list \<Rightarrow> bool" where
  "extends field segs =
     (case segments_of field of Some q \<Rightarrow> prefix segs q | None \<Rightarrow> False)"

text \<open>Two fields are comparable when the segments of one name are a prefix of the other's.\<close>

definition comparable :: "obj \<Rightarrow> obj \<Rightarrow> bool" where
  "comparable f g =
     (case segments_of f of
        Some p \<Rightarrow> overwrites g p \<or> extends g p
      | None \<Rightarrow> False)"

text \<open>
  What the \<^verbatim>\<open>forEach\<close> callback does to the properties when the field's name is a
  string, with the path already split into its keys.
\<close>

definition place_keys :: "obj \<Rightarrow> obj \<Rightarrow> obj" where
  "place_keys field props =
     (case segments_of field of
        Some segs \<Rightarrow> set_keys props (property_path segs) (JObj (rest_of field))
      | None \<Rightarrow> props)"

section \<open>The builder on a store of objects\<close>

text \<open>
  JavaScript objects are shared by reference: the spread \<^verbatim>\<open>{ name: key, ...field }\<close> and the
  rest pattern \<^verbatim>\<open>{ name, required, array, ...rest }\<close> copy one level only, so an object
  nested in a declaration is the same object in the leaf the builder places. Whether the
  caller's field map is left as it was is a question about that sharing, which the values
  above cannot express. The store below makes it explicit: a heap is the list of the
  objects allocated so far, an address is an index into it, an object is the list of its
  own properties in insertion order, and a property holds a primitive or the address of an
  object. The builder on values above gives the result of the builder on the store for a
  field map whose declarations share no nested object with one another.
\<close>

type_synonym addr = nat

datatype hval = HStr string | HNum int | HBool bool | HNull | HRef addr

type_synonym hobj = "(string \<times> hval) list"

type_synonym heap = "hobj list"

text \<open>A new object gets the next address.\<close>

definition alloc :: "heap \<Rightarrow> hobj \<Rightarrow> addr \<times> heap" where
  "alloc h obj = (length h, h @ [obj])"

text \<open>The object at an address; every address the builder follows has been allocated.\<close>

definition obj_at :: "heap \<Rightarrow> addr \<Rightarrow> hobj" where
  "obj_at h a = (if a < length h then h ! a else [])"

text \<open>
  \<^verbatim>\<open>obj[key] = v\<close> on one object: an existing property keeps its place, a new one is added
  last.
\<close>

fun put :: "string \<Rightarrow> hval \<Rightarrow> hobj \<Rightarrow> hobj" where
  "put key v [] = [(key, v)]"
| "put key v ((k, w) # ps) = (if k = key then (key, v) # ps else (k, w) # put key v ps)"

text \<open>The same assignment in the store.\<close>

definition assign :: "heap \<Rightarrow> addr \<Rightarrow> string \<Rightarrow> hval \<Rightarrow> heap" where
  "assign h a key v = h[a := put key v (obj_at h a)]"

text \<open>
  Modelled from the spec: \<^verbatim>\<open>set\<close> of \<^verbatim>\<open>@elastic/safer-lodash-set\<close> on the store, the same
  walk as \<open>set_keys\<close>: a segment that holds an object is followed (the object is reused,
  not copied), any other segment but the last gets a newly allocated empty object, and the
  last segment is assigned the value. \<open>object_at_key\<close> is the object a segment holds, if
  it holds one.
\<close>

definition object_at_key :: "heap \<Rightarrow> addr \<Rightarrow> string \<Rightarrow> addr option" where
  "object_at_key h nested key =
     (case map_of (obj_at h nested) key of Some (HRef objValue) \<Rightarrow> Some objValue | _ \<Rightarrow> None)"

fun set_keys_heap :: "heap \<Rightarrow> addr \<Rightarrow> string list \<Rightarrow> hval \<Rightarrow> heap" where
  "set_keys_heap h nested [] v = h"
| "set_keys_heap h nested [key] v = assign h nested key v"
| "set_keys_heap h nested (key # ks) v =
     (case object_at_key h nested key of
        Some objValue \<Rightarrow> set_keys_heap h objValue ks v
      | None \<Rightarrow>
          set_keys_heap (assign (snd (alloc h [])) nested key (HRef (fst (alloc h []))))
            (fst (alloc h [])) ks v)"

definition set_path_heap :: "heap \<Rightarrow> hval \<Rightarrow> string \<Rightarrow> hval \<Rightarrow> heap" where
  "set_path_heap h object path v =
     (case object of
        HRef a \<Rightarrow> set_keys_heap h a (split (CHR ''.'') path) v
      | _ \<Rightarrow> h)"

text \<open>
  The own properties a spread \<^verbatim>\<open>...field\<close> copies. A declaration is an object; null, a
  number or a boolean in its place would contribute nothing.
\<close>

definition spread :: "heap \<Rightarrow> hval \<Rightarrow> hobj" where
  "spread h v = (case v of HRef d \<Rightarrow> obj_at h d | _ \<Rightarrow> [])"

text \<open>The object literal \<^verbatim>\<open>{ name: key, ...field }\<close>.\<close>

definition with_name_heap :: "heap \<Rightarrow> string \<Rightarrow> hval \<Rightarrow> hobj" where
  "with_name_heap h key field =
     fold (\<lambda>(k, v). put k v) (spread h field) [(''name'', HStr key)]"

text \<open>
  \<^verbatim>\<open>Object.keys(fieldMap).map(...)\<close>: one newly allocated object per entry of the field
  map, in the order of its keys.
\<close>

fun make_fields :: "heap \<Rightarrow> (string \<times> hval) list \<Rightarrow> addr list \<times> heap" where
  "make_fields h [] = ([], h)"
| "make_fields h ((key, field) # entries) =
     (let (f, h1) = alloc h (with_name_heap h key field);
          (fs, h2) = make_fields h1 entries
      in (f # fs, h2))"

text \<open>
  The \<^verbatim>\<open>forEach\<close> callback on the store. The rest pattern allocates the leaf object, then
  \<^verbatim>\<open>field.name.split\<close> raises unless the name is a string, then \<^verbatim>\<open>set\<close> writes the
  address of the leaf below \<^verbatim>\<open>mappings.properties\<close>.
\<close>

definition place_field_heap :: "heap \<Rightarrow> addr \<Rightarrow> addr \<Rightarrow> error option \<times> heap" where
  "place_field_heap h mappings field =
     (let (rest, h1) = alloc h
            (filter (\<lambda>(k, v). k \<notin> {''name'', ''required'', ''array''}) (obj_at h field))
      in case map_of (obj_at h field) ''name'' of
           Some (HStr name) \<Rightarrow>
             (None,
              set_path_heap h1
                (case map_of (obj_at h1 mappings) ''properties'' of Some p \<Rightarrow> p | None \<Rightarrow> HNull)
                (join ''.properties.'' (split (CHR ''.'') name)) (HRef rest))
         | _ \<Rightarrow> (Some TypeError, h1))"

fun forEach_heap :: "heap \<Rightarrow> addr \<Rightarrow> addr list \<Rightarrow> error option \<times> heap" where
  "forEach_heap h mappings [] = (None, h)"
| "forEach_heap h mappings (field # fs) =
     (case place_field_heap h mappings field of
        (Some e, h1) \<Rightarrow> (Some e, h1)
      | (None, h1) \<Rightarrow> forEach_heap h1 mappings fs)"

text \<open>The value of the parameter \<^verbatim>\<open>dynamic\<close>.\<close>

definition dynamic_value :: "dynamic_mode \<Rightarrow> hval" where
  "dynamic_value dyn = (case dyn of Strict \<Rightarrow> HStr ''strict'' | Dynamic b \<Rightarrow> HBool b)"

text \<open>
  The builder on the store: it takes the address of the field map and returns the address
  of the new mappings object, or the exception, together with the store it leaves behind.
\<close>

definition mappingFromFieldMap_heap ::
    "heap \<Rightarrow> addr \<Rightarrow> dynamic_mode \<Rightarrow> (error + addr) \<times> heap" where
  "mappingFromFieldMap_heap h fieldMap dyn =
     (let (props, h1) = alloc h [];
          (mappings, h2) = alloc h1 [(''dynamic'', dynamic_value dyn), (''properties'', HRef props)];
          (fs, h3) = make_fields h2 (obj_at h2 fieldMap);
          (e, h4) = forEach_heap h3 mappings fs
      in case e of
           Some err \<Rightarrow> (Inl err, h4)
         | None \<Rightarrow> (Inr mappings, h4))"

text \<open>
  A flat field map: every entry refers to an allocated declaration object whose property
  values are all primitives, as the type of a field map prescribes (\<^verbatim>\<open>type\<close> a string,
  \<^verbatim>\<open>required\<close> and \<^verbatim>\<open>array\<close> booleans).
\<close>

definition primitive :: "hval \<Rightarrow> bool" where
  "primitive v = (case v of HRef a \<Rightarrow> False | _ \<Rightarrow> True)"

definition flat_declaration :: "heap \<Rightarrow> hval \<Rightarrow> bool" where
  "flat_declaration h v =
     (case v of
        HRef d \<Rightarrow> d < length h \<and> list_all (\<lambda>(k, w). primitive w) (obj_at h d)
      | _ \<Rightarrow> False)"

definition flat_field_map :: "heap \<Rightarrow> addr \<Rightarrow> bool" where
  "flat_field_map h fieldMap =
     (fieldMap < length h \<and> list_all (\<lambda>(key, v). flat_declaration h v) (obj_at h fieldMap))"

text \<open>
  The value a store holds below a property value, read to a given depth (\<open>None\<close> when
  the depth does not suffice): the structure that structural equality compares.
\<close>

fun read_value :: "nat \<Rightarrow> heap \<Rightarrow> hval \<Rightarrow> jv option" where
  "read_value n h (HStr s) = Some (JStr s)"
| "read_value n h (HNum i) = Some (JNum i)"
| "read_value n h (HBool b) = Some (JBool b)"
| "read_value n h HNull = Some JNull"
| "read_value 0 h (HRef a) = None"
| "read_value (Suc n) h (HRef a) =
     map_option (\<lambda>ps. JObj (map_of ps))
       (those (map (\<lambda>(k, v). map_option (Pair k) (read_value n h v)) (obj_at h a)))"

text \<open>
  Two invariants of the store for the proofs. \<open>closed_from n h\<close>: every reference held by
  an object at address \<open>n\<close> or above points to an allocated object at address \<open>n\<close> or
  above. \<open>refs_from n m obj\<close>: every reference the object holds lies between \<open>n\<close> and
  \<open>m\<close>.
\<close>

definition closed_from :: "nat \<Rightarrow> heap \<Rightarrow> bool" where
  "closed_from n h = (\<forall>a k c. n \<le> a \<longrightarrow> a < length h \<longrightarrow> (k, HRef c) \<in> set (h ! a) \<longrightarrow> n \<le> c \<and> c < length h)"

definition refs_from :: "nat \<Rightarrow> nat \<Rightarrow> hobj \<Rightarrow> bool" where
  "refs_from n m obj = (\<forall>k c. (k, HRef c) \<in> set obj \<longrightarrow> n \<le> c \<and> c < m)"

section \<open>Auxiliary facts\<close>

lemma split_not_Nil: "split c s \<noteq> []"
  by (induction s) (auto split: list.splits)

lemma split_no_sep: "c \<notin> set s \<Longrightarrow> split c s = [s]"
  by (induction s) (auto split: list.splits)

lemma split_append_sep: "c \<notin> set s \<Longrightarrow> split c (s @ c # r) = s # split c r"
  by (induction s) (auto split: list.splits)

lemma split_segments_no_sep: "s \<in> set (split c x) \<Longrightarrow> c \<notin> set s"
  by (induction x arbitrary: s) (auto split: list.splits if_splits)

lemma split_join_properties:
  assumes "\<forall>s \<in> set segs. CHR ''.'' \<notin> set s" and "segs \<noteq> []"
  shows "split (CHR ''.'') (join ''.properties.'' segs) = property_path segs"
  using assms
proof (induction segs rule: property_path.induct)
  case 1
  then show ?case by simp
next
  case (2 s)
  then show ?case by (simp add: split_no_sep)
next
  case (3 s t ts)
  have a: "join ''.properties.'' (s # t # ts) = s @ CHR ''.'' # (''properties'' @ CHR ''.'' # join ''.properties.'' (t # ts))"
    by simp
  have b: "CHR ''.'' \<notin> set ''properties''" by simp
  from 3 have c: "CHR ''.'' \<notin> set s" by simp
  from 3 have ih: "split (CHR ''.'') (join ''.properties.'' (t # ts)) = property_path (t # ts)" by simp
  show ?case
    unfolding a split_append_sep[OF c] split_append_sep[OF b] ih by simp
qed

lemma path_of_name:
  "split (CHR ''.'') (join ''.properties.'' (split (CHR ''.'') name)) = property_path (split (CHR ''.'') name)"
  by (rule split_join_properties) (auto simp: split_not_Nil dest: split_segments_no_sep)

lemma property_path_Nil_iff [simp]: "property_path p = [] \<longleftrightarrow> p = []"
  by (induction p rule: property_path.induct) auto

lemma get_set_same: "p \<noteq> [] \<Longrightarrow> get_keys (JObj (set_keys m p v)) p = Some v"
  by (induction m p v rule: set_keys.induct) auto

lemma get_set_other:
  "\<not> prefix q p \<Longrightarrow> \<not> prefix p q \<Longrightarrow> get_keys (JObj (set_keys m q w)) p = get_keys (JObj m) p"
proof (induction m q w arbitrary: p rule: set_keys.induct)
  case (1 nested v)
  then show ?case by simp
next
  case (2 nested key v)
  then show ?case by (cases p) auto
next
  case (3 nested key va vb v)
  show ?case
  proof (cases p)
    case Nil
    with 3 show ?thesis by simp
  next
    case (Cons k p')
    show ?thesis
    proof (cases "k = key")
      case False
      then show ?thesis using Cons by simp
    next
      case True
      with 3 Cons have np: "\<not> prefix (va # vb) p'" "\<not> prefix p' (va # vb)" by auto
      then have p': "p' \<noteq> []" by auto
      then obtain k' p'' where p'': "p' = k' # p''" by (cases p') auto
      show ?thesis using True Cons 3(1)[OF np] p''
        by (auto split: option.splits jv.splits)
    qed
  qed
qed

lemma set_keys_commute:
  "\<not> prefix q p \<Longrightarrow> \<not> prefix p q \<Longrightarrow> set_keys (set_keys m p v) q w = set_keys (set_keys m q w) p v"
proof (induction m p v arbitrary: q rule: set_keys.induct)
  case (1 nested v)
  then show ?case by simp
next
  case (2 nested key v)
  then obtain k q' where q: "q = k # q'" "k \<noteq> key" by (cases q) auto
  show ?case
  proof (cases q')
    case Nil
    then show ?thesis using q by (auto simp: fun_eq_iff)
  next
    case (Cons a list)
    then show ?thesis using q by (auto simp: fun_eq_iff)
  qed
next
  case (3 nested key va vb v)
  then obtain k q' where q: "q = k # q'" by (cases q) auto
  show ?case
  proof (cases "k = key")
    case False
    then show ?thesis using q by (cases q') (auto simp: fun_eq_iff)
  next
    case True
    with 3 q have np: "\<not> prefix q' (va # vb)" "\<not> prefix (va # vb) q'" by auto
    then obtain k' q'' where q': "q' = k' # q''" by (cases q') auto
    show ?thesis using True q q' 3(1)[OF np]
      by (auto simp: fun_eq_iff)
  qed
qed

lemma set_keys_other_key: "a \<noteq> k \<Longrightarrow> set_keys m (k # r) w a = m a"
  by (cases r) auto

lemma get_set_below:
  "get_keys (JObj m) p = Some (JObj leaf) \<Longrightarrow> q \<noteq> [] \<Longrightarrow>
   get_keys (JObj (set_keys m (p @ q) w)) p = Some (JObj (set_keys leaf q w))"
proof (induction p arbitrary: m)
  case Nil
  then show ?case by simp
next
  case (Cons k p)
  from Cons.prems obtain c where c: "m k = Some c" "get_keys c p = Some (JObj leaf)"
    by (auto split: option.splits)
  obtain x xs where pq: "p @ q = x # xs" using Cons.prems(2) by (cases "p @ q") auto
  show ?case
  proof (cases p)
    case Nil
    with c pq show ?thesis by simp
  next
    case (Cons k' p')
    with c obtain cm where cm: "c = JObj cm" by (cases c) auto
    from Cons.IH[of cm] c cm have "get_keys (JObj (set_keys cm (p @ q) w)) p = Some (JObj (set_keys leaf q w))"
      using Cons.prems(2) by simp
    then show ?thesis using c cm pq by simp
  qed
qed

lemma property_path_Cons:
  "property_path (s # ts) = s # concat (map (\<lambda>t. [''properties'', t]) ts)"
  by (induction ts arbitrary: s) auto

lemma prefix_blocks:
  "prefix (concat (map (\<lambda>t. [''properties'', t]) ts)) (concat (map (\<lambda>t. [''properties'', t]) us))
   \<longleftrightarrow> prefix ts us"
proof (induction ts arbitrary: us)
  case Nil
  then show ?case by simp
next
  case (Cons t ts)
  then show ?case by (cases us) auto
qed

lemma prefix_property_path: "prefix (property_path p) (property_path q) \<longleftrightarrow> prefix p q"
proof (cases p)
  case Nil
  then show ?thesis by simp
next
  case (Cons s ts)
  then show ?thesis
    by (cases q) (auto simp: property_path_Cons prefix_blocks)
qed

lemma property_path_append:
  "p \<noteq> [] \<Longrightarrow> property_path (p @ k # r) = property_path p @ ''properties'' # property_path (k # r)"
  by (cases p) (auto simp: property_path_Cons)

lemma place_field_segments:
  "segments_of f = Some segs \<Longrightarrow>
   place_field props f = Inr (set_keys props (property_path segs) (JObj (rest_of f)))"
  by (auto simp: segments_of_def name_of_def place_field_def set_path_def path_of_name
           split: option.splits jv.splits)

lemma place_field_no_name: "segments_of f = None \<Longrightarrow> place_field props f = Inl TypeError"
  by (auto simp: segments_of_def name_of_def place_field_def split: option.splits jv.splits)

lemma place_field_Inr:
  "place_field props f = Inr props' \<Longrightarrow>
   \<exists>segs. segments_of f = Some segs \<and> segs \<noteq> [] \<and>
     props' = set_keys props (property_path segs) (JObj (rest_of f))"
  by (cases "segments_of f")
     (auto simp: place_field_segments place_field_no_name segments_of_def split_not_Nil)

lemma forEach_append:
  "forEach (xs @ ys) props =
     (case forEach xs props of Inl e \<Rightarrow> Inl e | Inr props' \<Rightarrow> forEach ys props')"
  by (induction xs arbitrary: props) (auto split: sum.splits)

lemma segments_not_Nil: "segments_of f = Some segs \<Longrightarrow> segs \<noteq> []"
  by (auto simp: segments_of_def split_not_Nil)

lemma place_keeps_leaf:
  assumes "get_keys (JObj props) (property_path segs) = Some (JObj leaf)"
    and "segs \<noteq> []" and "segments_of f = Some q" and "\<not> prefix q segs"
  shows "\<exists>leaf'. get_keys (JObj (set_keys props (property_path q) v)) (property_path segs) = Some (JObj leaf')
           \<and> (\<forall>a. a \<noteq> ''properties'' \<longrightarrow> leaf' a = leaf a)
           \<and> (\<not> prefix segs q \<longrightarrow> leaf' = leaf)"
proof (cases "prefix segs q")
  case True
  then obtain r where "q = segs @ r" by (auto elim: prefixE)
  with assms(4) obtain k r' where q: "q = segs @ k # r'" by (cases r) auto
  have "get_keys (JObj (set_keys props (property_path q) v)) (property_path segs)
        = Some (JObj (set_keys leaf (''properties'' # property_path (k # r')) v))"
    unfolding q property_path_append[OF assms(2)]
    by (rule get_set_below[OF assms(1)]) simp
  then show ?thesis using True by (simp add: set_keys_other_key)
next
  case False
  have "get_keys (JObj (set_keys props (property_path q) v)) (property_path segs)
        = get_keys (JObj props) (property_path segs)"
    by (rule get_set_other) (simp_all add: prefix_property_path assms(4) False)
  then show ?thesis using assms(1) False by simp
qed

lemma forEach_keeps_leaf:
  assumes "forEach later props = Inr props'"
    and "get_keys (JObj props) (property_path segs) = Some (JObj leaf)"
    and "segs \<noteq> []"
    and "\<forall>f \<in> set later. \<not> overwrites f segs"
  shows "\<exists>leaf'. get_keys (JObj props') (property_path segs) = Some (JObj leaf')
           \<and> (\<forall>a. a \<noteq> ''properties'' \<longrightarrow> leaf' a = leaf a)
           \<and> ((\<forall>f \<in> set later. \<not> extends f segs) \<longrightarrow> leaf' = leaf)"
  using assms
proof (induction later arbitrary: props leaf)
  case Nil
  then show ?case by simp
next
  case (Cons f later)
  from Cons.prems(1) obtain props1 where p1: "place_field props f = Inr props1"
    and rest: "forEach later props1 = Inr props'"
    by (auto split: sum.splits)
  from place_field_Inr[OF p1] obtain q where q: "segments_of f = Some q"
    and props1: "props1 = set_keys props (property_path q) (JObj (rest_of f))" by blast
  from Cons.prems(4) q have nq: "\<not> prefix q segs" by (simp add: overwrites_def)
  from place_keeps_leaf[OF Cons.prems(2,3) q nq, of "JObj (rest_of f)"] props1
  obtain leaf1 where l1: "get_keys (JObj props1) (property_path segs) = Some (JObj leaf1)"
    and l1a: "\<forall>a. a \<noteq> ''properties'' \<longrightarrow> leaf1 a = leaf a"
    and l1b: "\<not> prefix segs q \<longrightarrow> leaf1 = leaf" by blast
  from Cons.IH[OF rest l1 Cons.prems(3)] Cons.prems(4)
  obtain leaf' where l': "get_keys (JObj props') (property_path segs) = Some (JObj leaf')"
    and l'a: "\<forall>a. a \<noteq> ''properties'' \<longrightarrow> leaf' a = leaf1 a"
    and l'b: "(\<forall>f \<in> set later. \<not> extends f segs) \<longrightarrow> leaf' = leaf1" by auto
  show ?case using l' l'a l'b l1a l1b q by (auto simp: extends_def)
qed


lemma fields_of_append: "fields_of (xs @ ys) = fields_of xs @ fields_of ys"
  by (simp add: fields_of_def)

lemma fields_of_Cons: "fields_of ((key, decl) # ys) = with_name key decl # fields_of ys"
  by (simp add: fields_of_def)

lemma builder_leaf:
  assumes "mappingFromFieldMap (before @ (key, decl) # later) dyn = Inr m"
  shows "\<exists>segs props1 props2. segments_of (with_name key decl) = Some segs \<and> segs \<noteq> []
     \<and> forEach (fields_of before) Map.empty = Inr props1
     \<and> props2 = set_keys props1 (property_path segs) (JObj (rest_of (with_name key decl)))
     \<and> get_keys (JObj props2) (property_path segs) = Some (JObj (rest_of (with_name key decl)))
     \<and> forEach (fields_of later) props2 = Inr (properties m)"
proof -
  from assms obtain props where fe: "forEach (fields_of (before @ (key, decl) # later)) Map.empty = Inr props"
    and m: "properties m = props"
    by (auto simp: mappingFromFieldMap_def split: sum.splits)
  from fe obtain props1 where b: "forEach (fields_of before) Map.empty = Inr props1"
    and r: "forEach (with_name key decl # fields_of later) props1 = Inr props"
    by (auto simp: fields_of_append fields_of_Cons forEach_append split: sum.splits)
  from r obtain props2 where p: "place_field props1 (with_name key decl) = Inr props2"
    and l: "forEach (fields_of later) props2 = Inr props"
    by (auto split: sum.splits)
  from place_field_Inr[OF p] obtain segs where s: "segments_of (with_name key decl) = Some segs"
    "segs \<noteq> []" "props2 = set_keys props1 (property_path segs) (JObj (rest_of (with_name key decl)))"
    by blast
  have "get_keys (JObj props2) (property_path segs) = Some (JObj (rest_of (with_name key decl)))"
    unfolding s(3) by (rule get_set_same) (simp add: s(2))
  with s b l m show ?thesis by auto
qed

lemma forEach_fold:
  "forEach fs props =
     (if \<forall>f \<in> set fs. segments_of f \<noteq> None then Inr (fold place_keys fs props)
      else Inl TypeError)"
proof (induction fs arbitrary: props)
  case Nil
  then show ?case by simp
next
  case (Cons f fs)
  show ?case
  proof (cases "segments_of f")
    case None
    then show ?thesis by (auto simp: place_field_no_name)
  next
    case (Some segs)
    then have "place_keys f props = set_keys props (property_path segs) (JObj (rest_of f))"
      by (simp add: place_keys_def)
    then show ?thesis using Some Cons.IH
      by (simp add: place_field_segments)
  qed
qed

lemma place_keys_commute:
  assumes "f \<noteq> g \<longrightarrow> \<not> comparable f g"
  shows "place_keys f \<circ> place_keys g = place_keys g \<circ> place_keys f"
proof (cases "f = g")
  case True
  then show ?thesis by simp
next
  case False
  with assms have nc: "\<not> comparable f g" by simp
  show ?thesis
  proof (cases "segments_of f")
    case None
    then show ?thesis by (auto simp: place_keys_def fun_eq_iff)
  next
    case (Some p)
    note p = this
    show ?thesis
    proof (cases "segments_of g")
      case None
      then show ?thesis by (auto simp: place_keys_def fun_eq_iff)
    next
      case (Some q)
      with p nc have "\<not> prefix q p" "\<not> prefix p q"
        by (auto simp: comparable_def overwrites_def extends_def)
      then have "\<not> prefix (property_path q) (property_path p)"
        "\<not> prefix (property_path p) (property_path q)"
        by (simp_all add: prefix_property_path)
      from set_keys_commute[OF this] show ?thesis using p Some
        by (auto simp: place_keys_def fun_eq_iff)
    qed
  qed
qed

lemma well_formed_segments:
  "well_formed_field f \<Longrightarrow> segments_of f \<noteq> None"
  by (auto simp: well_formed_field_def segments_of_def split: option.splits)


lemmas eval_defs = mappingFromFieldMap_def fields_of_def place_field_def with_name_def
  set_path_def rest_of_def segments_of_def name_of_def overwrites_def extends_def
  well_formed_def well_formed_field_def well_formed_name_def comparable_def

lemma set_put: "set (put key v ps) \<subseteq> insert (key, v) (set ps)"
  by (induction ps) (auto split: if_splits)

lemma closed_fromD:
  "closed_from n h \<Longrightarrow> n \<le> a \<Longrightarrow> a < length h \<Longrightarrow> (k, HRef c) \<in> set (h ! a)
   \<Longrightarrow> n \<le> c \<and> c < length h"
  unfolding closed_from_def by blast

lemma refs_fromD: "refs_from n m obj \<Longrightarrow> (k, HRef c) \<in> set obj \<Longrightarrow> n \<le> c \<and> c < m"
  unfolding refs_from_def by blast

lemma closed_from_obj:
  assumes "closed_from n h" and "n \<le> a" and "a < length h"
  shows "refs_from n (length h) (obj_at h a)"
  unfolding refs_from_def
proof (intro allI impI)
  fix k c
  assume "(k, HRef c) \<in> set (obj_at h a)"
  with assms(3) have "(k, HRef c) \<in> set (h ! a)" by (simp add: obj_at_def)
  with assms show "n \<le> c \<and> c < length h" by (rule closed_fromD)
qed

lemma refs_from_mono: "refs_from n m obj \<Longrightarrow> m \<le> m' \<Longrightarrow> refs_from n m' obj"
  unfolding refs_from_def by (meson less_le_trans)

lemma refs_from_put:
  assumes "refs_from n m obj" and "\<forall>c. v = HRef c \<longrightarrow> n \<le> c \<and> c < m"
  shows "refs_from n m (put key v obj)"
  unfolding refs_from_def
proof (intro allI impI)
  fix k c
  assume "(k, HRef c) \<in> set (put key v obj)"
  with set_put[of key v obj] have "(k, HRef c) = (key, v) \<or> (k, HRef c) \<in> set obj" by blast
  then show "n \<le> c \<and> c < m"
  proof
    assume "(k, HRef c) = (key, v)"
    with assms(2) show ?thesis by simp
  next
    assume "(k, HRef c) \<in> set obj"
    with assms(1) show ?thesis by (rule refs_fromD)
  qed
qed

lemma refs_from_filter:
  assumes "refs_from n m obj"
  shows "refs_from n m (filter P obj)"
  unfolding refs_from_def
proof (intro allI impI)
  fix k c
  assume "(k, HRef c) \<in> set (filter P obj)"
  then have "(k, HRef c) \<in> set obj" by simp
  with assms show "n \<le> c \<and> c < m" by (rule refs_fromD)
qed

lemma closed_from_alloc:
  assumes "closed_from n h" and "refs_from n (Suc (length h)) obj"
  shows "closed_from n (h @ [obj])"
  unfolding closed_from_def
proof (intro allI impI)
  fix a k c
  assume a: "n \<le> a" "a < length (h @ [obj])" "(k, HRef c) \<in> set ((h @ [obj]) ! a)"
  show "n \<le> c \<and> c < length (h @ [obj])"
  proof (cases "a < length h")
    case True
    with a(3) have "(k, HRef c) \<in> set (h ! a)" by (simp add: nth_append)
    from closed_fromD[OF assms(1) a(1) True this] show ?thesis by simp
  next
    case False
    with a(2) have "a = length h" by simp
    with a(3) have "(k, HRef c) \<in> set obj" by simp
    from refs_fromD[OF assms(2) this] show ?thesis by simp
  qed
qed

lemma length_assign [simp]: "length (assign h a key v) = length h"
  by (simp add: assign_def)

lemma closed_from_assign:
  assumes "closed_from n h" and "n \<le> a" and "a < length h"
    and "\<forall>c. v = HRef c \<longrightarrow> n \<le> c \<and> c < length h"
  shows "closed_from n (assign h a key v)"
  unfolding closed_from_def
proof (intro allI impI)
  fix b k c
  assume b: "n \<le> b" "b < length (assign h a key v)" "(k, HRef c) \<in> set (assign h a key v ! b)"
  show "n \<le> c \<and> c < length (assign h a key v)"
  proof (cases "b = a")
    case True
    with b(3) assms(3) have "(k, HRef c) \<in> set (put key v (obj_at h a))" by (simp add: assign_def)
    moreover have "refs_from n (length h) (put key v (obj_at h a))"
      by (rule refs_from_put[OF closed_from_obj[OF assms(1-3)] assms(4)])
    ultimately have "n \<le> c \<and> c < length h" by (rule refs_fromD[rotated])
    then show ?thesis by simp
  next
    case False
    with b(3) have "(k, HRef c) \<in> set (h ! b)" by (simp add: assign_def)
    moreover from b(2) have "b < length h" by simp
    ultimately have "n \<le> c \<and> c < length h" using assms(1) b(1) by (meson closed_fromD)
    then show ?thesis by simp
  qed
qed

lemma take_assign: "n \<le> a \<Longrightarrow> take n (assign h a key v) = take n h"
  by (simp add: assign_def)

lemma set_keys_heap_frame:
  assumes "closed_from n h" and "n \<le> nested" and "nested < length h"
    and "\<forall>c. v = HRef c \<longrightarrow> n \<le> c \<and> c < length h"
  shows "closed_from n (set_keys_heap h nested ks v)
       \<and> take n (set_keys_heap h nested ks v) = take n h
       \<and> length h \<le> length (set_keys_heap h nested ks v)"
  using assms
proof (induction h nested ks v rule: set_keys_heap.induct)
  case (1 h nested v)
  then show ?case by simp
next
  case (2 h nested key v)
  then show ?case by (simp add: closed_from_assign take_assign)
next
  case (3 h nested key k' ks v)
  show ?case
  proof (cases "object_at_key h nested key")
    case (Some c)
    then have "map_of (obj_at h nested) key = Some (HRef c)"
      by (auto simp: object_at_key_def split: option.splits hval.splits)
    then have "(key, HRef c) \<in> set (obj_at h nested)" by (rule map_of_SomeD)
    from refs_fromD[OF closed_from_obj[OF "3.prems"(1-3)] this] have cr: "n \<le> c" "c < length h"
      by simp_all
    from "3.IH"(2)[OF Some "3.prems"(1) cr "3.prems"(4)] Some show ?thesis by simp
  next
    case None
    let ?h1 = "h @ [[]]"
    let ?h2 = "assign ?h1 nested key (HRef (length h))"
    have c1: "closed_from n ?h1"
      by (rule closed_from_alloc[OF "3.prems"(1)]) (simp add: refs_from_def)
    have c2: "closed_from n (assign (snd (alloc h [])) nested key (HRef (fst (alloc h []))))"
      unfolding alloc_def fst_conv snd_conv
      by (rule closed_from_assign[OF c1 "3.prems"(2)]) (use "3.prems" in auto)
    have fresh: "n \<le> fst (alloc h [])"
      "fst (alloc h []) < length (assign (snd (alloc h [])) nested key (HRef (fst (alloc h []))))"
      using "3.prems" by (auto simp: alloc_def)
    have v: "\<forall>c. v = HRef c \<longrightarrow> n \<le> c \<and> c < length (assign (snd (alloc h [])) nested key (HRef (fst (alloc h []))))"
      using "3.prems"(4) by (auto simp: alloc_def)
    have t: "take n ?h2 = take n h" using "3.prems"(2,3) by (simp add: take_assign)
    from "3.IH"(1)[OF None c2 fresh v] None t show ?thesis
      by (simp add: alloc_def)
  qed
qed

lemma refs_from_primitive:
  assumes "list_all (\<lambda>(k, w). primitive w) obj"
  shows "refs_from n m obj"
  unfolding refs_from_def
proof (intro allI impI)
  fix k c
  assume "(k, HRef c) \<in> set obj"
  with assms have "primitive (HRef c)" by (auto simp: list_all_iff)
  then show "n \<le> c \<and> c < m" by (simp add: primitive_def)
qed

lemma refs_from_fold_put:
  assumes "list_all (\<lambda>(k, w). primitive w) ps" and "refs_from n m acc"
  shows "refs_from n m (fold (\<lambda>(k, v). put k v) ps acc)"
  using assms
proof (induction ps arbitrary: acc)
  case Nil
  then show ?case by simp
next
  case (Cons p ps)
  obtain k w where p: "p = (k, w)" by (cases p)
  with Cons.prems(1) have w: "primitive w" and ps: "list_all (\<lambda>(k, w). primitive w) ps" by simp_all
  from w have "\<forall>c. w = HRef c \<longrightarrow> n \<le> c \<and> c < m" by (auto simp: primitive_def)
  from refs_from_put[OF Cons.prems(2) this] have "refs_from n m (put k w acc)" .
  from Cons.IH[OF ps this] show ?case by (simp add: p)
qed

lemma flat_declaration_spread:
  "flat_declaration h v \<Longrightarrow> list_all (\<lambda>(k, w). primitive w) (spread h v)"
  by (cases v) (simp_all add: flat_declaration_def spread_def)

lemma refs_from_with_name_heap:
  assumes "flat_declaration h v"
  shows "refs_from n m (with_name_heap h key v)"
  unfolding with_name_heap_def
  by (rule refs_from_fold_put[OF flat_declaration_spread[OF assms]]) (simp add: refs_from_def)

lemma obj_at_append: "a < length h \<Longrightarrow> obj_at (h @ hs) a = obj_at h a"
  by (simp add: obj_at_def nth_append)

lemma flat_declaration_append: "flat_declaration h v \<Longrightarrow> flat_declaration (h @ hs) v"
  by (cases v) (auto simp: flat_declaration_def obj_at_append)

lemma make_fields_frame:
  assumes "make_fields h entries = (fs, h')"
    and "closed_from n h" and "n \<le> length h"
    and "list_all (\<lambda>(key, v). flat_declaration h v) entries"
  shows "closed_from n h' \<and> take n h' = take n h \<and> length h \<le> length h'
       \<and> (\<forall>f \<in> set fs. n \<le> f \<and> f < length h')"
  using assms
proof (induction entries arbitrary: h fs)
  case Nil
  then show ?case by simp
next
  case (Cons e entries)
  obtain key v where e: "e = (key, v)" by (cases e)
  let ?h1 = "h @ [with_name_heap h key v]"
  obtain fs1 where mf: "make_fields ?h1 entries = (fs1, h')" and fs: "fs = length h # fs1"
    using Cons.prems(1) e by (auto simp: alloc_def split: prod.splits)
  from Cons.prems(4) e have fv: "flat_declaration h v"
    and fl: "list_all (\<lambda>(key, v). flat_declaration h v) entries" by simp_all
  have c1: "closed_from n ?h1"
    by (rule closed_from_alloc[OF Cons.prems(2) refs_from_with_name_heap[OF fv]])
  have n1: "n \<le> length ?h1" using Cons.prems(3) by simp
  have fl1: "list_all (\<lambda>(key, v). flat_declaration ?h1 v) entries"
    using fl by (auto simp: list_all_iff intro: flat_declaration_append)
  from Cons.IH[OF mf c1 n1 fl1]
  have r: "closed_from n h'" "take n h' = take n ?h1" "length ?h1 \<le> length h'"
    "\<forall>f \<in> set fs1. n \<le> f \<and> f < length h'" by simp_all
  have "take n ?h1 = take n h" using Cons.prems(3) by simp
  with r fs Cons.prems(3) show ?case by auto
qed

lemma place_field_heap_frame:
  assumes "place_field_heap h mappings field = (e, h')"
    and "closed_from n h" and "n \<le> field" and "field < length h"
    and "n \<le> mappings" and "mappings < length h"
  shows "closed_from n h' \<and> take n h' = take n h \<and> length h \<le> length h'"
proof -
  let ?rest = "filter (\<lambda>(k, v). k \<notin> {''name'', ''required'', ''array''}) (obj_at h field)"
  let ?h1 = "h @ [?rest]"
  let ?object = "case map_of (obj_at ?h1 mappings) ''properties'' of Some p \<Rightarrow> p | None \<Rightarrow> HNull"
  have nl: "n \<le> length h" using assms(3,4) by simp
  have "refs_from n (length h) ?rest"
    by (rule refs_from_filter[OF closed_from_obj[OF assms(2-4)]])
  then have "refs_from n (Suc (length h)) ?rest" by (rule refs_from_mono) simp
  then have c1: "closed_from n ?h1" by (rule closed_from_alloc[OF assms(2)])
  have t1: "take n ?h1 = take n h" using nl by simp
  show ?thesis
  proof (cases "\<exists>name. map_of (obj_at h field) ''name'' = Some (HStr name)")
    case False
    then have "h' = ?h1" using assms(1)
      by (auto simp: place_field_heap_def alloc_def split: option.splits hval.splits)
    with c1 t1 show ?thesis by simp
  next
    case True
    then obtain name where name: "map_of (obj_at h field) ''name'' = Some (HStr name)" by blast
    let ?path = "join ''.properties.'' (split (CHR ''.'') name)"
    have h': "h' = set_path_heap ?h1 ?object ?path (HRef (length h))"
      using assms(1) name by (simp add: place_field_heap_def alloc_def)
    show ?thesis
    proof (cases ?object)
      case (HRef a)
      then have "map_of (obj_at ?h1 mappings) ''properties'' = Some (HRef a)"
        by (simp split: option.splits)
      then have "(''properties'', HRef a) \<in> set (obj_at ?h1 mappings)" by (rule map_of_SomeD)
      moreover have "mappings < length ?h1" using assms(6) by simp
      ultimately have a: "n \<le> a \<and> a < length ?h1"
        using refs_fromD[OF closed_from_obj[OF c1 assms(5)]] by blast
      have v: "\<forall>c. HRef (length h) = HRef c \<longrightarrow> n \<le> c \<and> c < length ?h1" using nl by simp
      have "h' = set_keys_heap ?h1 a (split (CHR ''.'') ?path) (HRef (length h))"
        unfolding h' HRef by (simp add: set_path_heap_def)
      with set_keys_heap_frame[OF c1 _ _ v, of a "split (CHR ''.'') ?path"] a t1
      show ?thesis by simp
    qed (use h' c1 t1 in \<open>simp_all add: set_path_heap_def\<close>)
  qed
qed

lemma forEach_heap_frame:
  assumes "forEach_heap h mappings fs = (e, h')"
    and "closed_from n h" and "\<forall>f \<in> set fs. n \<le> f \<and> f < length h"
    and "n \<le> mappings" and "mappings < length h"
  shows "take n h' = take n h"
  using assms
proof (induction fs arbitrary: h)
  case Nil
  then show ?case by simp
next
  case (Cons f fs)
  obtain e1 h1 where p: "place_field_heap h mappings f = (e1, h1)" by (cases "place_field_heap h mappings f")
  from Cons.prems(3) have f: "n \<le> f" "f < length h" by simp_all
  from place_field_heap_frame[OF p Cons.prems(2) f Cons.prems(4,5)]
  have r: "closed_from n h1" "take n h1 = take n h" "length h \<le> length h1" by simp_all
  show ?case
  proof (cases e1)
    case (Some err)
    with p Cons.prems(1) have "h' = h1" by simp
    with r show ?thesis by simp
  next
    case None
    with p Cons.prems(1) have fe: "forEach_heap h1 mappings fs = (e, h')" by simp
    have fs1: "\<forall>f \<in> set fs. n \<le> f \<and> f < length h1" using Cons.prems(3) r(3) by auto
    have m1: "mappings < length h1" using Cons.prems(5) r(3) by simp
    from Cons.IH[OF fe r(1) fs1 Cons.prems(4) m1] r(2) show ?thesis by simp
  qed
qed

lemma closed_from_length: "closed_from (length h) h"
  unfolding closed_from_def by simp

lemma flat_field_map_frame:
  assumes "flat_field_map h fieldMap"
    and "mappingFromFieldMap_heap h fieldMap dyn = (r, h')"
  shows "take (length h) h' = h \<and> obj_at h' fieldMap = obj_at h fieldMap
       \<and> list_all (\<lambda>(key, v). flat_declaration h' v \<and> spread h' v = spread h v) (obj_at h' fieldMap)"
proof -
  let ?n = "length h"
  let ?h1 = "h @ [[]]"
  let ?m = "[(''dynamic'', dynamic_value dyn), (''properties'', HRef ?n)]"
  let ?h2 = "?h1 @ [?m]"
  obtain fs h3 where mf: "make_fields ?h2 (obj_at ?h2 fieldMap) = (fs, h3)"
    by (cases "make_fields ?h2 (obj_at ?h2 fieldMap)")
  obtain e h4 where fe: "forEach_heap h3 (Suc ?n) fs = (e, h4)"
    by (cases "forEach_heap h3 (Suc ?n) fs")
  from assms(2) mf fe have h': "h' = h4"
    by (auto simp: mappingFromFieldMap_heap_def alloc_def split: option.splits)
  from assms(1) have fm: "fieldMap < ?n"
    and flat: "list_all (\<lambda>(key, v). flat_declaration h v) (obj_at h fieldMap)"
    by (simp_all add: flat_field_map_def)
  have c1: "closed_from ?n ?h1"
    by (rule closed_from_alloc[OF closed_from_length]) (simp add: refs_from_def)
  have c2: "closed_from ?n ?h2"
    by (rule closed_from_alloc[OF c1])
       (auto simp: refs_from_def dynamic_value_def split: dynamic_mode.splits)
  have o2: "obj_at ?h2 fieldMap = obj_at h fieldMap"
    using fm by (simp add: obj_at_def nth_append)
  have flat2: "list_all (\<lambda>(key, v). flat_declaration ?h2 v) (obj_at ?h2 fieldMap)"
    unfolding o2 using flat
    by (auto simp: list_all_iff intro: flat_declaration_append[where hs = "[[], ?m]", simplified])
  from make_fields_frame[OF mf c2 _ flat2]
  have r3: "closed_from ?n h3" "take ?n h3 = take ?n ?h2" "length ?h2 \<le> length h3"
    "\<forall>f \<in> set fs. ?n \<le> f \<and> f < length h3" by simp_all
  have m3: "Suc ?n < length h3" using r3(3) by simp
  from forEach_heap_frame[OF fe r3(1) r3(4) _ m3] have "take ?n h4 = take ?n h3" by simp
  with r3(2) h' have t: "take ?n h' = h" by simp
  have same: "obj_at h' a = obj_at h a" if "a < ?n" for a
  proof -
    from t have "length h \<le> length h'" by (metis length_take min.cobounded1 min_def nat_le_linear)
    moreover have "take ?n h' ! a = h' ! a" using that by simp
    ultimately show ?thesis using that t by (simp add: obj_at_def)
  qed
  have len: "?n \<le> length h'" using t by (metis length_take min.cobounded1 min_def nat_le_linear)
  have "flat_declaration h' v \<and> spread h' v = spread h v" if "flat_declaration h v" for v
    using that len by (cases v) (auto simp: flat_declaration_def spread_def same)
  with flat have "list_all (\<lambda>(key, v). flat_declaration h' v \<and> spread h' v = spread h v) (obj_at h fieldMap)"
    by (auto simp: list_all_iff)
  with t same[OF fm] show ?thesis by simp
qed

lemmas heap_defs = mappingFromFieldMap_heap_def alloc_def obj_at_def assign_def set_path_heap_def
  spread_def with_name_heap_def place_field_heap_def dynamic_value_def object_at_key_def
  flat_field_map_def flat_declaration_def primitive_def

lemma read_value_primitive:
  "primitive w \<Longrightarrow> read_value n h' w = read_value n h w"
  by (cases w) (simp_all add: primitive_def)

lemma read_value_flat_declaration:
  assumes "flat_declaration h v" and "spread h' v = spread h v"
  shows "read_value n h' v = read_value n h v"
proof -
  from assms(1) obtain d where v: "v = HRef d"
    and prim: "list_all (\<lambda>(k, w). primitive w) (obj_at h d)"
    by (cases v) (simp_all add: flat_declaration_def)
  from assms(2) v have o: "obj_at h' d = obj_at h d" by (simp add: spread_def)
  show ?thesis
  proof (cases n)
    case 0
    then show ?thesis by (simp add: v)
  next
    case (Suc m)
    have "map (\<lambda>(k, w). map_option (Pair k) (read_value m h' w)) (obj_at h d)
        = map (\<lambda>(k, w). map_option (Pair k) (read_value m h w)) (obj_at h d)"
    proof (rule map_cong[OF refl])
      fix x assume x: "x \<in> set (obj_at h d)"
      obtain k w where kw: "x = (k, w)" by (cases x)
      with x prim have "primitive w" by (auto simp: list_all_iff)
      then have "read_value m h' w = read_value m h w" by (rule read_value_primitive)
      then show "(case x of (k, w) \<Rightarrow> map_option (Pair k) (read_value m h' w))
          = (case x of (k, w) \<Rightarrow> map_option (Pair k) (read_value m h w))" by (simp add: kw)
    qed
    then show ?thesis by (simp add: v Suc o del: map_eq_conv)
  qed
qed

lemma store_agrees_on_example:
  "map_option (\<lambda>v. get_keys v [''properties''])
     (read_value 5
       (snd (mappingFromFieldMap_heap
          [[(''user.name'', HRef 1)], [(''type'', HStr ''text''), (''required'', HBool True)]] 0 Strict))
       (HRef 3))
   = Some (Some (JObj [''user'' \<mapsto> JObj [''properties'' \<mapsto> JObj
          [''name'' \<mapsto> JObj [''type'' \<mapsto> JStr ''text'']]]]))"
  by (simp add: heap_defs eval_nat_numeral)

section \<open>Placement of a field at its path\<close>




section \<open>The leaf holds the declaration without its metadata\<close>




section \<open>The root of the result\<close>

text \<open>
  Claim C3. Whenever the builder returns, the root of the returned mapping consists of
  exactly a \<open>dynamic\<close> field equal to the supplied mode and a \<open>properties\<close> field
  holding the tree assembled by the loop over the fields.
\<close>

theorem root_has_dynamic_and_properties:
  assumes "mappingFromFieldMap fieldMap dyn = Inr m"
  shows "\<exists>props. forEach (fields_of fieldMap) Map.empty = Inr props
           \<and> m = \<lparr>dynamic = dyn, properties = props\<rparr>"
  using assms by (auto simp: mappingFromFieldMap_def split: sum.splits)

text \<open>A table of one field with the mode \<open>true\<close>.\<close>

theorem root_has_dynamic_and_properties_witness:
  "forEach (fields_of [(''host'', [''type'' \<mapsto> JStr ''keyword''])]) Map.empty
     = Inr [''host'' \<mapsto> JObj [''type'' \<mapsto> JStr ''keyword'']]
   \<and> mappingFromFieldMap [(''host'', [''type'' \<mapsto> JStr ''keyword''])] (Dynamic True)
     = Inr \<lparr>dynamic = Dynamic True, properties = [''host'' \<mapsto> JObj [''type'' \<mapsto> JStr ''keyword'']]\<rparr>"
proof -
  have run: "mappingFromFieldMap [(''host'', [''type'' \<mapsto> JStr ''keyword''])] (Dynamic True)
     = Inr \<lparr>dynamic = Dynamic True, properties = [''host'' \<mapsto> JObj [''type'' \<mapsto> JStr ''keyword'']]\<rparr>"
    by (simp add: eval_defs)
  from root_has_dynamic_and_properties[OF run] run show ?thesis by auto
qed

section \<open>Independence of the enumeration order\<close>

text \<open>
  Claim C4. Two permutations of the same entries yield the same mapping. This holds
  when no two different fields of the table are comparable, that is when no field's name
  is, segment by segment, a prefix of another field's name.
\<close>

theorem order_independent_when_incomparable:
  assumes "mset fieldMap' = mset fieldMap"
    and "pairwise (\<lambda>f g. \<not> comparable f g) (set (fields_of fieldMap))"
  shows "mappingFromFieldMap fieldMap' dyn = mappingFromFieldMap fieldMap dyn"
proof -
  have ms: "mset (fields_of fieldMap) = mset (fields_of fieldMap')"
    using assms(1) unfolding fields_of_def by (metis mset_map)
  then have st: "set (fields_of fieldMap) = set (fields_of fieldMap')"
    by (rule mset_eq_setD)
  have "fold place_keys (fields_of fieldMap) = fold place_keys (fields_of fieldMap')"
  proof (rule fold_multiset_equiv[OF _ ms])
    fix x y
    assume "x \<in> set (fields_of fieldMap)" "y \<in> set (fields_of fieldMap)"
    with assms(2) have "x \<noteq> y \<longrightarrow> \<not> comparable x y" by (auto simp: pairwise_def)
    then show "place_keys x \<circ> place_keys y = place_keys y \<circ> place_keys x"
      by (rule place_keys_commute)
  qed
  then show ?thesis
    by (simp add: mappingFromFieldMap_def forEach_fold st)
qed

text \<open>The two orders of the sibling fields \<open>a.b\<close> and \<open>a.c\<close>.\<close>

theorem order_independent_when_incomparable_witness:
  "mappingFromFieldMap
     [(''a.c'', [''type'' \<mapsto> JStr ''text'']), (''a.b'', [''type'' \<mapsto> JStr ''keyword''])] Strict
   = mappingFromFieldMap
     [(''a.b'', [''type'' \<mapsto> JStr ''keyword'']), (''a.c'', [''type'' \<mapsto> JStr ''text''])] Strict"
proof -
  let ?fm = "[(''a.b'', [''type'' \<mapsto> JStr ''keyword'']), (''a.c'', [''type'' \<mapsto> JStr ''text''])]"
  let ?fm' = "[(''a.c'', [''type'' \<mapsto> JStr ''text'']), (''a.b'', [''type'' \<mapsto> JStr ''keyword''])]"
  have perm: "mset ?fm' = mset ?fm" by (simp add: add_mset_commute)
  have inc: "pairwise (\<lambda>f g. \<not> comparable f g) (set (fields_of ?fm))"
    by (simp add: pairwise_insert eval_defs)
  from order_independent_when_incomparable[OF perm inc] show ?thesis .
qed

text \<open>The two orders of the fields \<open>a\<close> and \<open>a.b\<close> give different mappings.\<close>

theorem order_matters_counterexample:
  "well_formed [(''a'', [''type'' \<mapsto> JStr ''object'']), (''a.b'', [''type'' \<mapsto> JStr ''keyword''])]
   \<and> mset [(''a.b'', [''type'' \<mapsto> JStr ''keyword'']), (''a'', [''type'' \<mapsto> JStr ''object''])]
     = mset [(''a'', [''type'' \<mapsto> JStr ''object'']), (''a.b'', [''type'' \<mapsto> JStr ''keyword''])]
   \<and> mappingFromFieldMap
       [(''a'', [''type'' \<mapsto> JStr ''object'']), (''a.b'', [''type'' \<mapsto> JStr ''keyword''])] Strict
     = Inr \<lparr>dynamic = Strict, properties =
         [''a'' \<mapsto> JObj [''type'' \<mapsto> JStr ''object'',
            ''properties'' \<mapsto> JObj [''b'' \<mapsto> JObj [''type'' \<mapsto> JStr ''keyword'']]]]\<rparr>
   \<and> mappingFromFieldMap
       [(''a.b'', [''type'' \<mapsto> JStr ''keyword'']), (''a'', [''type'' \<mapsto> JStr ''object''])] Strict
     = Inr \<lparr>dynamic = Strict, properties = [''a'' \<mapsto> JObj [''type'' \<mapsto> JStr ''object'']]\<rparr>
   \<and> mappingFromFieldMap
       [(''a'', [''type'' \<mapsto> JStr ''object'']), (''a.b'', [''type'' \<mapsto> JStr ''keyword''])] Strict
     \<noteq> mappingFromFieldMap
       [(''a.b'', [''type'' \<mapsto> JStr ''keyword'']), (''a'', [''type'' \<mapsto> JStr ''object''])] Strict"
proof -
  let ?A = "[''type'' \<mapsto> JStr ''object'', ''properties'' \<mapsto> JObj [''b'' \<mapsto> JObj [''type'' \<mapsto> JStr ''keyword'']]]"
  let ?B = "[''type'' \<mapsto> JStr ''object'']"
  have r1: "mappingFromFieldMap
       [(''a'', [''type'' \<mapsto> JStr ''object'']), (''a.b'', [''type'' \<mapsto> JStr ''keyword''])] Strict
     = Inr \<lparr>dynamic = Strict, properties = [''a'' \<mapsto> JObj ?A]\<rparr>"
    by (simp add: eval_defs)
  have r2: "mappingFromFieldMap
       [(''a.b'', [''type'' \<mapsto> JStr ''keyword'']), (''a'', [''type'' \<mapsto> JStr ''object''])] Strict
     = Inr \<lparr>dynamic = Strict, properties = [''a'' \<mapsto> JObj ?B]\<rparr>"
    by (simp add: eval_defs)
  have "?A ''properties'' \<noteq> ?B ''properties''" by simp
  then have "?A \<noteq> ?B" by metis
  then have "[''a'' \<mapsto> JObj ?A] ''a'' \<noteq> [''a'' \<mapsto> JObj ?B] ''a''" by simp
  then have ne: "[''a'' \<mapsto> JObj ?A] \<noteq> [''a'' \<mapsto> JObj ?B]" by metis
  have wf: "well_formed [(''a'', [''type'' \<mapsto> JStr ''object'']), (''a.b'', [''type'' \<mapsto> JStr ''keyword''])]"
    by (simp add: eval_defs)
  have perm: "mset [(''a.b'', [''type'' \<mapsto> JStr ''keyword'']), (''a'', [''type'' \<mapsto> JStr ''object''])]
     = mset [(''a'', [''type'' \<mapsto> JStr ''object'']), (''a.b'', [''type'' \<mapsto> JStr ''keyword''])]"
    by (simp add: add_mset_commute)
  show ?thesis unfolding r1 r2 using wf perm ne by simp
qed

section \<open>Determinism\<close>



section \<open>Two fields sharing their first segment\<close>



section \<open>The example of the spec\<close>

text \<open>
  Claim C7. For the table \<open>{ "user.name": { type: "text", required: true } }\<close> and the
  mode \<open>"strict"\<close> the builder returns exactly
  \<open>{ dynamic: "strict", properties: { user: { properties: { name: { type: "text" } } } } }\<close>.
\<close>

theorem user_name_example:
  "mappingFromFieldMap
     [(''user.name'', [''type'' \<mapsto> JStr ''text'', ''required'' \<mapsto> JBool True])] Strict
   = Inr \<lparr>dynamic = Strict, properties =
       [''user'' \<mapsto> JObj [''properties'' \<mapsto> JObj
          [''name'' \<mapsto> JObj [''type'' \<mapsto> JStr ''text'']]]]\<rparr>"
  by (simp add: mappingFromFieldMap_def fields_of_def place_field_def with_name_def
        set_path_def rest_of_def)

section \<open>No exception on well-formed input\<close>

text \<open>
  Claim C8. For every well-formed input (unique keys, every field name a non-empty string
  with non-empty dot-separated segments) the builder returns a mapping; it raises no
  exception.
\<close>

theorem no_exception_on_well_formed_input:
  assumes "well_formed fieldMap"
  shows "(\<exists>m. mappingFromFieldMap fieldMap dyn = Inr m)
           \<and> (\<forall>e. mappingFromFieldMap fieldMap dyn \<noteq> Inl e)"
proof -
  from assms have "\<forall>f \<in> set (fields_of fieldMap). segments_of f \<noteq> None"
    by (auto simp: well_formed_def list_all_iff dest: well_formed_segments)
  then show ?thesis
    by (simp add: mappingFromFieldMap_def forEach_fold)
qed

text \<open>A well-formed table of two fields.\<close>

theorem no_exception_on_well_formed_input_witness:
  "well_formed [(''user.name'', [''type'' \<mapsto> JStr ''text'']), (''user.id'', [''type'' \<mapsto> JStr ''keyword''])]
   \<and> mappingFromFieldMap
        [(''user.name'', [''type'' \<mapsto> JStr ''text'']), (''user.id'', [''type'' \<mapsto> JStr ''keyword''])]
        (Dynamic True)
      \<noteq> Inl TypeError"
proof -
  have wf: "well_formed [(''user.name'', [''type'' \<mapsto> JStr ''text'']), (''user.id'', [''type'' \<mapsto> JStr ''keyword''])]"
    by (simp add: eval_defs)
  from no_exception_on_well_formed_input[OF wf, of "Dynamic True"] wf show ?thesis by blast
qed

section \<open>The field map after the call\<close>

text \<open>
  Claim C9. The call leaves the caller's field map unchanged. On the store this holds
  for a flat field map, one whose declarations hold only primitive property values: the
  builder then only allocates, no object that existed before the call is written to, and
  the field map reads back as the same value at every depth.
\<close>

theorem flat_field_map_unchanged:
  assumes "flat_field_map h fieldMap"
    and "mappingFromFieldMap_heap h fieldMap dyn = (r, h')"
  shows "take (length h) h' = h
       \<and> read_value n h' (HRef fieldMap) = read_value n h (HRef fieldMap)"
proof -
  note fr = flat_field_map_frame[OF assms]
  from fr have t: "take (length h) h' = h" by (rule conjunct1)
  from fr have o: "obj_at h' fieldMap = obj_at h fieldMap" by (rule conjunct2[THEN conjunct1])
  from fr have l: "list_all (\<lambda>(key, v). flat_declaration h' v \<and> spread h' v = spread h v) (obj_at h' fieldMap)"
    by (rule conjunct2[THEN conjunct2])
  from assms(1) have flat: "list_all (\<lambda>(key, v). flat_declaration h v) (obj_at h fieldMap)"
    by (simp add: flat_field_map_def)
  have "read_value n h' (HRef fieldMap) = read_value n h (HRef fieldMap)"
  proof (cases n)
    case 0
    then show ?thesis by simp
  next
    case (Suc m)
    have "map (\<lambda>(k, v). map_option (Pair k) (read_value m h' v)) (obj_at h fieldMap)
        = map (\<lambda>(k, v). map_option (Pair k) (read_value m h v)) (obj_at h fieldMap)"
    proof (rule map_cong[OF refl])
      fix x assume x: "x \<in> set (obj_at h fieldMap)"
      obtain k v where kv: "x = (k, v)" by (cases x)
      with x flat have fv: "flat_declaration h v" by (auto simp: list_all_iff)
      from x kv l have "spread h' v = spread h v" unfolding o by (auto simp: list_all_iff)
      with fv have "read_value m h' v = read_value m h v" by (rule read_value_flat_declaration)
      then show "(case x of (k, v) \<Rightarrow> map_option (Pair k) (read_value m h' v))
          = (case x of (k, v) \<Rightarrow> map_option (Pair k) (read_value m h v))" by (simp add: kv)
    qed
    then show ?thesis by (simp add: Suc o del: map_eq_conv)
  qed
  with t show ?thesis by simp
qed

text \<open>A flat field map of two declarations: the three objects of the caller are the first three of the store after the call.\<close>

theorem flat_field_map_unchanged_witness:
  "mappingFromFieldMap_heap
     [[(''user.name'', HRef 1), (''user.id'', HRef 2)],
      [(''type'', HStr ''text''), (''required'', HBool True)],
      [(''type'', HStr ''keyword'')]] 0 Strict
   = (Inr 4,
      [[(''user.name'', HRef 1), (''user.id'', HRef 2)],
       [(''type'', HStr ''text''), (''required'', HBool True)],
       [(''type'', HStr ''keyword'')],
       [(''user'', HRef 8)],
       [(''dynamic'', HStr ''strict''), (''properties'', HRef 3)],
       [(''name'', HStr ''user.name''), (''type'', HStr ''text''), (''required'', HBool True)],
       [(''name'', HStr ''user.id''), (''type'', HStr ''keyword'')],
       [(''type'', HStr ''text'')],
       [(''properties'', HRef 9)],
       [(''name'', HRef 7), (''id'', HRef 10)],
       [(''type'', HStr ''keyword'')]])
   \<and> take 3
      [[(''user.name'', HRef 1), (''user.id'', HRef 2)],
       [(''type'', HStr ''text''), (''required'', HBool True)],
       [(''type'', HStr ''keyword'')],
       [(''user'', HRef 8)],
       [(''dynamic'', HStr ''strict''), (''properties'', HRef 3)],
       [(''name'', HStr ''user.name''), (''type'', HStr ''text''), (''required'', HBool True)],
       [(''name'', HStr ''user.id''), (''type'', HStr ''keyword'')],
       [(''type'', HStr ''text'')],
       [(''properties'', HRef 9)],
       [(''name'', HRef 7), (''id'', HRef 10)],
       [(''type'', HStr ''keyword'')]]
     = [[(''user.name'', HRef 1), (''user.id'', HRef 2)],
        [(''type'', HStr ''text''), (''required'', HBool True)],
        [(''type'', HStr ''keyword'')]]
   \<and> read_value 2
      [[(''user.name'', HRef 1), (''user.id'', HRef 2)],
       [(''type'', HStr ''text''), (''required'', HBool True)],
       [(''type'', HStr ''keyword'')],
       [(''user'', HRef 8)],
       [(''dynamic'', HStr ''strict''), (''properties'', HRef 3)],
       [(''name'', HStr ''user.name''), (''type'', HStr ''text''), (''required'', HBool True)],
       [(''name'', HStr ''user.id''), (''type'', HStr ''keyword'')],
       [(''type'', HStr ''text'')],
       [(''properties'', HRef 9)],
       [(''name'', HRef 7), (''id'', HRef 10)],
       [(''type'', HStr ''keyword'')]] (HRef 0)
     = read_value 2
        [[(''user.name'', HRef 1), (''user.id'', HRef 2)],
         [(''type'', HStr ''text''), (''required'', HBool True)],
         [(''type'', HStr ''keyword'')]] (HRef 0)"
proof -
  let ?h = "[[(''user.name'', HRef 1), (''user.id'', HRef 2)],
      [(''type'', HStr ''text''), (''required'', HBool True)],
      [(''type'', HStr ''keyword'')]]"
  let ?h' = "[[(''user.name'', HRef 1), (''user.id'', HRef 2)],
       [(''type'', HStr ''text''), (''required'', HBool True)],
       [(''type'', HStr ''keyword'')],
       [(''user'', HRef 8)],
       [(''dynamic'', HStr ''strict''), (''properties'', HRef 3)],
       [(''name'', HStr ''user.name''), (''type'', HStr ''text''), (''required'', HBool True)],
       [(''name'', HStr ''user.id''), (''type'', HStr ''keyword'')],
       [(''type'', HStr ''text'')],
       [(''properties'', HRef 9)],
       [(''name'', HRef 7), (''id'', HRef 10)],
       [(''type'', HStr ''keyword'')]]"
  have flat: "flat_field_map ?h 0" by (simp add: heap_defs)
  have run: "mappingFromFieldMap_heap ?h 0 Strict = (Inr 4, ?h')" by (simp add: heap_defs)
  from flat_field_map_unchanged[OF flat run, of 2] run show ?thesis by simp
qed

text \<open>The declaration of \<open>a\<close> holds a nested \<open>properties\<close> object; the leaf of \<open>a\<close> shares it, and placing \<open>a.b\<close> adds the entry \<open>b\<close> to it.\<close>

theorem nested_object_mutated_counterexample:
  "mappingFromFieldMap_heap
     [[(''a'', HRef 1), (''a.b'', HRef 3)],
      [(''type'', HStr ''object''), (''properties'', HRef 2)],
      [(''x'', HRef 4)],
      [(''type'', HStr ''keyword'')],
      [(''type'', HStr ''text'')]] 0 Strict
   = (Inr 6,
     [[(''a'', HRef 1), (''a.b'', HRef 3)],
      [(''type'', HStr ''object''), (''properties'', HRef 2)],
      [(''x'', HRef 4), (''b'', HRef 10)],
      [(''type'', HStr ''keyword'')],
      [(''type'', HStr ''text'')],
      [(''a'', HRef 9)],
      [(''dynamic'', HStr ''strict''), (''properties'', HRef 5)],
      [(''name'', HStr ''a''), (''type'', HStr ''object''), (''properties'', HRef 2)],
      [(''name'', HStr ''a.b''), (''type'', HStr ''keyword'')],
      [(''type'', HStr ''object''), (''properties'', HRef 2)],
      [(''type'', HStr ''keyword'')]])
   \<and> read_value 4
        [[(''a'', HRef 1), (''a.b'', HRef 3)],
         [(''type'', HStr ''object''), (''properties'', HRef 2)],
         [(''x'', HRef 4)],
         [(''type'', HStr ''keyword'')],
         [(''type'', HStr ''text'')]] (HRef 0)
     \<noteq> read_value 4
        (snd (mappingFromFieldMap_heap
          [[(''a'', HRef 1), (''a.b'', HRef 3)],
           [(''type'', HStr ''object''), (''properties'', HRef 2)],
           [(''x'', HRef 4)],
           [(''type'', HStr ''keyword'')],
           [(''type'', HStr ''text'')]] 0 Strict)) (HRef 0)"
proof -
  let ?h = "[[(''a'', HRef 1), (''a.b'', HRef 3)],
      [(''type'', HStr ''object''), (''properties'', HRef 2)],
      [(''x'', HRef 4)],
      [(''type'', HStr ''keyword'')],
      [(''type'', HStr ''text'')]]"
  let ?h' = "[[(''a'', HRef 1), (''a.b'', HRef 3)],
      [(''type'', HStr ''object''), (''properties'', HRef 2)],
      [(''x'', HRef 4), (''b'', HRef 10)],
      [(''type'', HStr ''keyword'')],
      [(''type'', HStr ''text'')],
      [(''a'', HRef 9)],
      [(''dynamic'', HStr ''strict''), (''properties'', HRef 5)],
      [(''name'', HStr ''a''), (''type'', HStr ''object''), (''properties'', HRef 2)],
      [(''name'', HStr ''a.b''), (''type'', HStr ''keyword'')],
      [(''type'', HStr ''object''), (''properties'', HRef 2)],
      [(''type'', HStr ''keyword'')]]"
  let ?p = "[''a'', ''properties'', ''b'']"
  have run: "mappingFromFieldMap_heap ?h 0 Strict = (Inr 6, ?h')" by (simp add: heap_defs)
  have before: "Option.bind (read_value 4 ?h (HRef 0)) (\<lambda>v. get_keys v ?p) = None"
    by (simp add: obj_at_def eval_nat_numeral)
  have after: "Option.bind (read_value 4 ?h' (HRef 0)) (\<lambda>v. get_keys v ?p) \<noteq> None"
    by (simp add: obj_at_def eval_nat_numeral)
  from before after have "read_value 4 ?h (HRef 0) \<noteq> read_value 4 ?h' (HRef 0)" by metis
  with run show ?thesis by simp
qed

section \<open>The leaf never has a name key\<close>

text \<open>
  Claim C10. The object the builder places for a field never has a \<open>name\<close>, \<open>required\<close>
  or \<open>array\<close> key, also when the declaration carries a \<open>name\<close> attribute of its own; such
  an attribute overrides the table key as the field's name before it is stripped. Unless a
  later field overwrites it, the object found at the field's path in the result has none
  of the three keys either.
\<close>

theorem name_required_array_stripped:
  assumes "mappingFromFieldMap (before @ (key, decl) # later) dyn = Inr m"
    and "segments_of (with_name key decl) = Some segs"
  shows "rest_of (with_name key decl) ''name'' = None
       \<and> rest_of (with_name key decl) ''required'' = None
       \<and> rest_of (with_name key decl) ''array'' = None
       \<and> name_of (with_name key decl)
           = (case decl ''name'' of None \<Rightarrow> Some key | Some (JStr n) \<Rightarrow> Some n | Some _ \<Rightarrow> None)
       \<and> ((\<forall>f \<in> set (fields_of later). \<not> overwrites f segs) \<longrightarrow>
            (\<exists>leaf. get_keys (JObj (properties m)) (property_path segs) = Some (JObj leaf)
               \<and> leaf ''name'' = None \<and> leaf ''required'' = None \<and> leaf ''array'' = None))"
proof -
  have r: "rest_of (with_name key decl) ''name'' = None"
    "rest_of (with_name key decl) ''required'' = None"
    "rest_of (with_name key decl) ''array'' = None"
    by (simp_all add: rest_of_def)
  have n: "name_of (with_name key decl)
           = (case decl ''name'' of None \<Rightarrow> Some key | Some (JStr n) \<Rightarrow> Some n | Some _ \<Rightarrow> None)"
    by (auto simp: name_of_def with_name_def map_add_def split: option.splits jv.splits)
  have "\<exists>leaf. get_keys (JObj (properties m)) (property_path segs) = Some (JObj leaf)
               \<and> leaf ''name'' = None \<and> leaf ''required'' = None \<and> leaf ''array'' = None"
    if "\<forall>f \<in> set (fields_of later). \<not> overwrites f segs"
  proof -
    from builder_leaf[OF assms(1)] assms(2)
    obtain props2 where ne: "segs \<noteq> []"
      and g: "get_keys (JObj props2) (property_path segs) = Some (JObj (rest_of (with_name key decl)))"
      and l: "forEach (fields_of later) props2 = Inr (properties m)" by auto
    from forEach_keeps_leaf[OF l g ne that] r show ?thesis by auto
  qed
  with r n show ?thesis by blast
qed

text \<open>A declaration under the key \<open>x\<close> whose own name is \<open>a.b\<close>.\<close>

theorem name_required_array_stripped_witness:
  "name_of (with_name ''x'' [''name'' \<mapsto> JStr ''a.b'', ''type'' \<mapsto> JStr ''keyword'', ''required'' \<mapsto> JBool True])
     = Some ''a.b''
   \<and> mappingFromFieldMap
       [(''x'', [''name'' \<mapsto> JStr ''a.b'', ''type'' \<mapsto> JStr ''keyword'', ''required'' \<mapsto> JBool True])] Strict
     = Inr \<lparr>dynamic = Strict, properties =
         [''a'' \<mapsto> JObj [''properties'' \<mapsto> JObj [''b'' \<mapsto> JObj [''type'' \<mapsto> JStr ''keyword'']]]]\<rparr>
   \<and> (\<exists>leaf. get_keys (JObj [''a'' \<mapsto> JObj [''properties'' \<mapsto> JObj [''b'' \<mapsto> JObj [''type'' \<mapsto> JStr ''keyword'']]]])
         [''a'', ''properties'', ''b''] = Some (JObj leaf)
        \<and> leaf ''name'' = None \<and> leaf ''required'' = None \<and> leaf ''array'' = None)"
proof -
  let ?d = "[''name'' \<mapsto> JStr ''a.b'', ''type'' \<mapsto> JStr ''keyword'', ''required'' \<mapsto> JBool True]"
  let ?m = "\<lparr>dynamic = Strict, properties =
         [''a'' \<mapsto> JObj [''properties'' \<mapsto> JObj [''b'' \<mapsto> JObj [''type'' \<mapsto> JStr ''keyword'']]]]\<rparr>"
  have run: "mappingFromFieldMap ([] @ (''x'', ?d) # []) Strict = Inr ?m"
    by (simp add: eval_defs)
  have segs: "segments_of (with_name ''x'' ?d) = Some [''a'', ''b'']"
    by (simp add: eval_defs)
  from name_required_array_stripped[OF run segs] run show ?thesis
    by (simp add: fields_of_def)
qed

end
